theory Spec2Isabelle
  imports Complex_Main "HOL-Library.Word" "HOL-Library.AList"
begin

unbundle bit_operations_syntax

section \<open>Data model of the hash ring\<close>

text \<open>
  A position is an unsigned 32-bit integer. The hash function \<open>hash32\<close> is imported by the
  source from the external package \<open>murmur-hash\<close>; every operation of the model takes it as
  the parameter \<open>h\<close>, so that the general theorems hold for any deterministic 32-bit hash.
\<close>

type_synonym position = "32 word"
type_synonym hash_fn = "string \<Rightarrow> position"

text \<open>
  A JavaScript \<open>Map\<close> iterates in insertion order, and \<open>nodes\<close> exposes that order, so the
  Map is an association list: \<open>set\<close> overwrites an existing key in place and appends a new
  key at the end, \<open>delete\<close> drops the entry of the key.
\<close>

type_synonym ('k, 'v) js_map = "('k \<times> 'v) list"

definition Map_set :: "'k \<Rightarrow> 'v \<Rightarrow> ('k, 'v) js_map \<Rightarrow> ('k, 'v) js_map" where
  "Map_set k v m = AList.update k v m"

definition Map_delete :: "'k \<Rightarrow> ('k, 'v) js_map \<Rightarrow> ('k, 'v) js_map" where
  "Map_delete k m = AList.delete k m"

definition Map_get :: "('k, 'v) js_map \<Rightarrow> 'k \<Rightarrow> 'v option" where
  "Map_get m k = map_of m k"

definition Map_size :: "('k, 'v) js_map \<Rightarrow> nat" where
  "Map_size m = length m"

definition Map_keys :: "('k, 'v) js_map \<Rightarrow> 'k list" where
  "Map_keys m = map fst m"

definition Map_values :: "('k, 'v) js_map \<Rightarrow> 'v list" where
  "Map_values m = map snd m"

text \<open>
  \<open>new Set(iterable)\<close> followed by \<open>Array.from\<close>: the distinct elements in the order of
  their first occurrence.
\<close>

definition Set_add :: "'a \<Rightarrow> 'a list \<Rightarrow> 'a list" where
  "Set_add x acc = (if x \<in> set acc then acc else acc @ [x])"

definition new_Set :: "'a list \<Rightarrow> 'a list" where
  "new_Set xs = fold Set_add xs []"

text \<open>
  The replica count is a JavaScript \<open>number\<close> that the constructor stores unchecked. Its
  finite values are rendered as rationals (every finite double is one, whole or
  fractional, positive or not), beside \<open>NaN\<close> and \<open>-Infinity\<close>. \<open>+Infinity\<close> is not a value of
  the model: with \<open>replicas = Infinity\<close> the loops of \<open>add\<close> and \<open>remove\<close> never end, and no
  total function models them.
\<close>

datatype number = Num rat | NaN | NegInfinity

text \<open>The comparison \<open><\<close> of two numbers: every comparison with \<open>NaN\<close> is false.\<close>

fun js_less :: "number \<Rightarrow> number \<Rightarrow> bool" where
  "js_less (Num a) (Num b) = (a < b)"
| "js_less NegInfinity (Num b) = True"
| "js_less _ _ = False"

text \<open>
  The number of rounds of a loop \<open>for (let i = 0; i < r; i++)\<close>: the least whole number
  that is not below \<open>r\<close>, and none for \<open>NaN\<close> and \<open>-Infinity\<close>. It bounds the loops below and
  names the positions they visit; the loops themselves compare as the code does.
\<close>

fun loop_bound :: "number \<Rightarrow> nat" where
  "loop_bound (Num q) = nat \<lceil>q\<rceil>"
| "loop_bound NaN = 0"
| "loop_bound NegInfinity = 0"

text \<open>
  The class \<open>HashOrbit\<close>: the position map, the sorted positions and the replica count.
  The parameter \<open>count\<close> of \<open>getN\<close> is modelled by \<open>int\<close>, the type the interface
  description gives it.
\<close>

record hash_orbit =
  ring :: "(position, string) js_map"
  sortedKeys :: "position list"
  replicas :: number

record HashOrbitOptions =
  opt_replicas :: "number option"

definition default_options :: HashOrbitOptions where
  "default_options = \<lparr>opt_replicas = None\<rparr>"

definition constructor :: "HashOrbitOptions \<Rightarrow> hash_orbit" where
  "constructor options =
     \<lparr>ring = [], sortedKeys = [],
      replicas = (case opt_replicas options of None \<Rightarrow> Num 150 | Some r \<Rightarrow> r)\<rparr>"

definition get_size :: "hash_orbit \<Rightarrow> nat" where
  "get_size s = length (new_Set (Map_values (ring s)))"

definition get_nodes :: "hash_orbit \<Rightarrow> string list" where
  "get_nodes s = new_Set (Map_values (ring s))"

section \<open>Validation\<close>

datatype arg_error = Empty | TooLong

datatype error = InvalidArgument arg_error string

definition MAX_LENGTH :: nat where
  "MAX_LENGTH = 1000"

text \<open>
  Modelled from the spec: the private method \<open>validateIdentifier\<close> is called by the source
  but its body is missing. An identifier must be non-empty and at most 1000 units long;
  a violation raises the typed error, which carries the label the caller passes
  (the tests expect the messages \<open>Node identifier cannot be empty\<close> and
  \<open>Key exceeds maximum length\<close>).
\<close>

definition validateIdentifier :: "string \<Rightarrow> string \<Rightarrow> error + unit" where
  "validateIdentifier ident label =
     (if ident = [] then Inl (InvalidArgument Empty label)
      else if length ident > MAX_LENGTH then Inl (InvalidArgument TooLong label)
      else Inr ())"

definition valid_id :: "string \<Rightarrow> bool" where
  "valid_id ident = (ident \<noteq> [] \<and> length ident \<le> MAX_LENGTH)"

section \<open>Membership: add and remove\<close>

text \<open>The decimal rendering of a loop counter inside a template string.\<close>

fun string_of_nat :: "nat \<Rightarrow> string" where
  "string_of_nat n =
     (if n < 10 then [''0123456789'' ! n]
      else string_of_nat (n div 10) @ [''0123456789'' ! (n mod 10)])"

declare string_of_nat.simps [simp del]

text \<open>The template string \<open>`${node}:${i}`\<close>.\<close>

definition vkey :: "string \<Rightarrow> nat \<Rightarrow> string" where
  "vkey node i = node @ '':'' @ string_of_nat i"

text \<open>
  The loop \<open>for (let i = 0; i < this.replicas; i++)\<close> of \<open>add\<close>, writing
  \<open>position \<rightarrow> node\<close> into the Map.
\<close>

function add_loop :: "hash_fn \<Rightarrow> string \<Rightarrow> number \<Rightarrow> nat \<Rightarrow> (position, string) js_map
    \<Rightarrow> (position, string) js_map" where
  "add_loop h node r i m =
     (if js_less (Num (of_nat i)) r
      then add_loop h node r (Suc i) (Map_set (h (vkey node i)) node m) else m)"
  by pat_completeness auto
termination
proof (relation "measure (\<lambda>(h, node, r, i, m). loop_bound r - i)")
  show "wf (measure (\<lambda>(h, node, r, i, m). loop_bound r - i))" by simp
next
  fix h :: hash_fn and node :: string and r :: number and i :: nat
    and m :: "(position, string) js_map"
  assume "js_less (Num (of_nat i)) r"
  then obtain q where q: "r = Num q" "of_nat i < q" by (cases r) auto
  then have "of_int (int i) < q" by simp
  then have "int i < \<lceil>q\<rceil>" by (simp only: less_ceiling_iff)
  then have "i < nat \<lceil>q\<rceil>" by simp
  then show "((h, node, r, Suc i, Map_set (h (vkey node i)) node m), (h, node, r, i, m))
      \<in> measure (\<lambda>(h, node, r, i, m). loop_bound r - i)"
    using q by simp
qed

declare add_loop.simps [simp del]

text \<open>
  A mutator returns the outcome (the raised error or the void result) together with the
  state of the object afterwards.
\<close>

definition add :: "hash_fn \<Rightarrow> string \<Rightarrow> hash_orbit \<Rightarrow> (error + unit) \<times> hash_orbit" where
  "add h node s =
     (case validateIdentifier node ''Node identifier'' of
        Inl e \<Rightarrow> (Inl e, s)
      | Inr _ \<Rightarrow>
          (let ring' = add_loop h node (replicas s) 0 (ring s)
           in (Inr (), s\<lparr>ring := ring', sortedKeys := sort (Map_keys ring')\<rparr>)))"

text \<open>
  Modelled from the spec: the method \<open>remove\<close> is missing from the source. It validates the
  identifier as \<open>add\<close> does, recomputes the same positions for the replica indices
  \<open>0..R-1\<close>, deletes whatever entry currently occupies each of them, and rebuilds the
  Sorted Index.
\<close>

function remove_loop :: "hash_fn \<Rightarrow> string \<Rightarrow> number \<Rightarrow> nat \<Rightarrow> (position, string) js_map
    \<Rightarrow> (position, string) js_map" where
  "remove_loop h node r i m =
     (if js_less (Num (of_nat i)) r
      then remove_loop h node r (Suc i) (Map_delete (h (vkey node i)) m) else m)"
  by pat_completeness auto
termination
proof (relation "measure (\<lambda>(h, node, r, i, m). loop_bound r - i)")
  show "wf (measure (\<lambda>(h, node, r, i, m). loop_bound r - i))" by simp
next
  fix h :: hash_fn and node :: string and r :: number and i :: nat
    and m :: "(position, string) js_map"
  assume "js_less (Num (of_nat i)) r"
  then obtain q where q: "r = Num q" "of_nat i < q" by (cases r) auto
  then have "of_int (int i) < q" by simp
  then have "int i < \<lceil>q\<rceil>" by (simp only: less_ceiling_iff)
  then have "i < nat \<lceil>q\<rceil>" by simp
  then show "((h, node, r, Suc i, Map_delete (h (vkey node i)) m), (h, node, r, i, m))
      \<in> measure (\<lambda>(h, node, r, i, m). loop_bound r - i)"
    using q by simp
qed

declare remove_loop.simps [simp del]

definition remove :: "hash_fn \<Rightarrow> string \<Rightarrow> hash_orbit \<Rightarrow> (error + unit) \<times> hash_orbit" where
  "remove h node s =
     (case validateIdentifier node ''Node identifier'' of
        Inl e \<Rightarrow> (Inl e, s)
      | Inr _ \<Rightarrow>
          (let ring' = remove_loop h node (replicas s) 0 (ring s)
           in (Inr (), s\<lparr>ring := ring', sortedKeys := sort (Map_keys ring')\<rparr>)))"

section \<open>Lookup: get and getN\<close>

text \<open>
  Modelled from the spec: the private method \<open>binarySearch\<close> is called by the source
  (\<open>Find first position >= key hash\<close>) but its body is missing. It is a lower-bound binary
  search over the Sorted Index: the index of the first element that is not below the
  target, and the length of the index when there is none.
\<close>

function binarySearch_loop :: "position list \<Rightarrow> position \<Rightarrow> nat \<Rightarrow> nat \<Rightarrow> nat" where
  "binarySearch_loop keys target left right =
     (if left < right then
        (let mid = (left + right) div 2
         in if keys ! mid < target then binarySearch_loop keys target (mid + 1) right
            else binarySearch_loop keys target left mid)
      else left)"
  by pat_completeness auto
termination
  by (relation "measure (\<lambda>(keys, target, left, right). right - left)") auto

declare binarySearch_loop.simps [simp del]

definition binarySearch :: "position list \<Rightarrow> position \<Rightarrow> nat" where
  "binarySearch keys target = binarySearch_loop keys target 0 (length keys)"

text \<open>
  \<open>this.ring.get(this.sortedKeys[idx]!)\<close>: an index out of range reads \<open>undefined\<close>, which
  is no key of the Map.
\<close>

definition owner_at :: "hash_orbit \<Rightarrow> nat \<Rightarrow> string option" where
  "owner_at s idx =
     (if idx < length (sortedKeys s) then Map_get (ring s) (sortedKeys s ! idx) else None)"

definition get :: "hash_fn \<Rightarrow> string \<Rightarrow> hash_orbit \<Rightarrow> (error + string option) \<times> hash_orbit" where
  "get h key s =
     (case validateIdentifier key ''Key'' of
        Inl e \<Rightarrow> (Inl e, s)
      | Inr _ \<Rightarrow>
          if Map_size (ring s) = 0 then (Inr None, s)
          else
            (let position = h key;
                 idx = binarySearch (sortedKeys s) position;
                 idx = (if idx \<ge> length (sortedKeys s) then 0 else idx)
             in (Inr (owner_at s idx), s)))"

text \<open>
  The loop of \<open>getN\<close>: \<open>i\<close> counts the iterations, \<open>idx\<close> walks the Sorted Index and wraps,
  \<open>seen\<close> is the Set of collected owners and \<open>result\<close> the array. The test \<open>node &&\<close> skips
  \<open>undefined\<close> and the empty string.
\<close>

function getN_loop :: "hash_orbit \<Rightarrow> int \<Rightarrow> nat \<Rightarrow> nat \<Rightarrow> string set \<Rightarrow> string list
    \<Rightarrow> string list" where
  "getN_loop s count i idx seen result =
     (if i < length (sortedKeys s) \<and> int (length result) < count then
        (let idx = (if idx \<ge> length (sortedKeys s) then 0 else idx)
         in case owner_at s idx of
              None \<Rightarrow> getN_loop s count (Suc i) (Suc idx) seen result
            | Some node \<Rightarrow>
                if node \<noteq> [] \<and> node \<notin> seen
                then getN_loop s count (Suc i) (Suc idx) (insert node seen) (result @ [node])
                else getN_loop s count (Suc i) (Suc idx) seen result)
      else result)"
  by pat_completeness auto
termination
  by (relation "measure (\<lambda>(s, count, i, idx, seen, result). length (sortedKeys s) - i)") auto

declare getN_loop.simps [simp del]

definition getN :: "hash_fn \<Rightarrow> string \<Rightarrow> int \<Rightarrow> hash_orbit
    \<Rightarrow> (error + string list) \<times> hash_orbit" where
  "getN h key count s =
     (case validateIdentifier key ''Key'' of
        Inl e \<Rightarrow> (Inl e, s)
      | Inr _ \<Rightarrow>
          if Map_size (ring s) = 0 \<or> count \<le> 0 then (Inr [], s)
          else
            (let position = h key;
                 idx = binarySearch (sortedKeys s) position
             in (Inr (getN_loop s count 0 idx {} []), s)))"

section \<open>Snapshot: toJSON and fromJSON\<close>

record ring_json =
  json_nodes :: "string list"
  json_replicas :: number

text \<open>
  Modelled from the spec: \<open>toJSON\<close>, \<open>fromJSON\<close> and \<open>toString\<close> are missing from the source
  (only their tests are present). The snapshot holds the distinct node identifiers and
  the replica count; restoring constructs a ring with that replica count and calls \<open>add\<close>
  for every node of the snapshot, an error of \<open>add\<close> ending the restore. The position count
  printed by \<open>toString\<close> is the number of entries of the position map.
\<close>

definition toJSON :: "hash_orbit \<Rightarrow> ring_json" where
  "toJSON s = \<lparr>json_nodes = get_nodes s, json_replicas = replicas s\<rparr>"

fun fromJSON_loop :: "hash_fn \<Rightarrow> string list \<Rightarrow> hash_orbit \<Rightarrow> error + hash_orbit" where
  "fromJSON_loop h [] s = Inr s"
| "fromJSON_loop h (node # rest) s =
     (case add h node s of
        (Inl e, _) \<Rightarrow> Inl e
      | (Inr _, s') \<Rightarrow> fromJSON_loop h rest s')"

definition fromJSON :: "hash_fn \<Rightarrow> ring_json \<Rightarrow> error + hash_orbit" where
  "fromJSON h data =
     fromJSON_loop h (json_nodes data) (constructor \<lparr>opt_replicas = Some (json_replicas data)\<rparr>)"

definition toString_positions :: "hash_orbit \<Rightarrow> nat" where
  "toString_positions s = Map_size (ring s)"

text \<open>The positions of the virtual nodes of a physical node, in the order of the replica index.\<close>

definition positions :: "hash_fn \<Rightarrow> string \<Rightarrow> number \<Rightarrow> position list" where
  "positions h node r = map (\<lambda>i. h (vkey node i)) [0..<loop_bound r]"

section \<open>Reachable ring states\<close>

text \<open>
  A ring object is created by the constructor and changed by \<open>add\<close> and \<open>remove\<close> only
  (\<open>fromJSON\<close> is the constructor followed by calls of \<open>add\<close>).
\<close>

inductive reachable :: "hash_fn \<Rightarrow> hash_orbit \<Rightarrow> bool" for h :: hash_fn where
  reach_new: "reachable h (constructor options)"
| reach_add: "reachable h s \<Longrightarrow> reachable h (snd (add h node s))"
| reach_remove: "reachable h s \<Longrightarrow> reachable h (snd (remove h node s))"

text \<open>
  What holds of the fields of every ring object: the Map has one entry per position,
  the Sorted Index is the ascending sequence of its keys, and no owner is the empty string.
\<close>

definition ring_inv :: "hash_orbit \<Rightarrow> bool" where
  "ring_inv s =
     (distinct (Map_keys (ring s)) \<and> sortedKeys s = sort (Map_keys (ring s))
      \<and> [] \<notin> set (Map_values (ring s)))"

text \<open>
  The clockwise walk of \<open>getN\<close> as a function of the owners it meets, in the order it meets
  them. It is used to reason about the loop; \<open>getN_loop\<close> above is the model of the code.
\<close>

fun collect_owners :: "int \<Rightarrow> string option list \<Rightarrow> string set \<Rightarrow> string list \<Rightarrow> string list"
  where
  "collect_owners count [] seen result = result"
| "collect_owners count (ow # rest) seen result =
     (if int (length result) < count then
        (case ow of
           None \<Rightarrow> collect_owners count rest seen result
         | Some node \<Rightarrow>
             if node \<noteq> [] \<and> node \<notin> seen
             then collect_owners count rest (insert node seen) (result @ [node])
             else collect_owners count rest seen result)
      else result)"

text \<open>The wrap of the walk: \<open>if (idx >= this.sortedKeys.length) idx = 0\<close>.\<close>

definition wrap_index :: "hash_orbit \<Rightarrow> nat \<Rightarrow> nat" where
  "wrap_index s idx = (if idx \<ge> length (sortedKeys s) then 0 else idx)"

text \<open>The owners a walk can collect: the non-empty identifiers among the owners it meets.\<close>

definition named_owners :: "string option list \<Rightarrow> string set" where
  "named_owners os = {n. Some n \<in> set os \<and> n \<noteq> []}"

text \<open>
  Identifiers are free of collisions when no two distinct ones share a virtual-node
  position. The states reachable by adding and removing identifiers of a given set.
\<close>

definition collision_free :: "hash_fn \<Rightarrow> number \<Rightarrow> string set \<Rightarrow> bool" where
  "collision_free h r ids =
     (\<forall>a \<in> ids. \<forall>b \<in> ids. a \<noteq> b \<longrightarrow> set (positions h a r) \<inter> set (positions h b r) = {})"

inductive reachable_within :: "hash_fn \<Rightarrow> string set \<Rightarrow> hash_orbit \<Rightarrow> bool"
  for h :: hash_fn and ids :: "string set" where
  within_new: "reachable_within h ids (constructor options)"
| within_add: "reachable_within h ids s \<Longrightarrow> node \<in> ids
    \<Longrightarrow> reachable_within h ids (snd (add h node s))"
| within_remove: "reachable_within h ids s \<Longrightarrow> node \<in> ids
    \<Longrightarrow> reachable_within h ids (snd (remove h node s))"

section \<open>A concrete hash function\<close>

text \<open>
  Modelled from the spec: \<open>hash32\<close> belongs to the external package \<open>murmur-hash\<close> and is
  missing from the source, which describes it as \<open>MurmurHash3 32-bit\<close>. The instance
  below is MurmurHash3 (x86, 32 bit, seed 0) over the character codes of the string. It is
  used for the concrete examples only.
\<close>

definition rotl32 :: "position \<Rightarrow> nat \<Rightarrow> position" where
  "rotl32 x r = push_bit r x OR drop_bit (32 - r) x"

definition mix_k :: "position \<Rightarrow> position" where
  "mix_k k = rotl32 (k * 0xcc9e2d51) 15 * 0x1b873593"

definition byte_of :: "char \<Rightarrow> position" where
  "byte_of c = of_nat (of_char c)"

fun murmur_body :: "position \<Rightarrow> string \<Rightarrow> position" where
  "murmur_body hh (a # b # c # d # rest) =
     murmur_body
       (rotl32 (hh XOR mix_k (byte_of a OR push_bit 8 (byte_of b) OR push_bit 16 (byte_of c)
                              OR push_bit 24 (byte_of d))) 13 * 5 + 0xe6546b64) rest"
| "murmur_body hh [a, b, c] =
     hh XOR mix_k (byte_of a XOR push_bit 8 (byte_of b) XOR push_bit 16 (byte_of c))"
| "murmur_body hh [a, b] = hh XOR mix_k (byte_of a XOR push_bit 8 (byte_of b))"
| "murmur_body hh [a] = hh XOR mix_k (byte_of a)"
| "murmur_body hh [] = hh"

definition fmix32 :: "position \<Rightarrow> position" where
  "fmix32 h0 =
     (let h1 = (h0 XOR drop_bit 16 h0) * 0x85ebca6b;
          h2 = (h1 XOR drop_bit 13 h1) * 0xc2b2ae35
      in h2 XOR drop_bit 16 h2)"

definition murmur3_32 :: hash_fn where
  "murmur3_32 str = fmix32 (murmur_body 0 str XOR of_nat (length str))"

text \<open>
  A ring used for the concrete examples: two replicas per node, \<open>node-1\<close> and \<open>node-2\<close>
  added in that order.
\<close>

definition example_ring :: hash_orbit where
  "example_ring =
     snd (add murmur3_32 ''node-2''
       (snd (add murmur3_32 ''node-1'' (constructor \<lparr>opt_replicas = Some (Num 2)\<rparr>))))"

text \<open>
  Two identifiers whose first virtual nodes hash to the same position: a ring with one
  replica per node that holds the second of them, and a ring with two replicas per node
  to which both were added.
\<close>

definition single_replica_ring :: hash_orbit where
  "single_replica_ring =
     snd (add murmur3_32 ''node-350751'' (constructor \<lparr>opt_replicas = Some (Num 1)\<rparr>))"

definition collided_ring :: hash_orbit where
  "collided_ring =
     snd (add murmur3_32 ''node-350751''
       (snd (add murmur3_32 ''node-12915'' (constructor \<lparr>opt_replicas = Some (Num 2)\<rparr>))))"

section \<open>Basic facts about the Set and the mutation loops\<close>


lemma set_fold_Set_add: "set (fold Set_add xs acc) = set acc \<union> set xs"
  by (induction xs arbitrary: acc) (auto simp: Set_add_def)

lemma distinct_fold_Set_add: "distinct acc \<Longrightarrow> distinct (fold Set_add xs acc)"
  by (induction xs arbitrary: acc) (auto simp: Set_add_def)

lemma set_new_Set: "set (new_Set xs) = set xs"
  by (simp add: new_Set_def set_fold_Set_add)

lemma distinct_new_Set: "distinct (new_Set xs)"
  by (simp add: new_Set_def distinct_fold_Set_add)

lemma length_new_Set: "length (new_Set xs) = card (set xs)"
  using distinct_card [OF distinct_new_Set, of xs] by (simp add: set_new_Set)

lemma js_less_loop_bound: "js_less (Num (of_nat i)) r \<longleftrightarrow> i < loop_bound r"
proof (cases r)
  case (Num q)
  have "of_nat i < q \<longleftrightarrow> of_int (int i) < q" by simp
  also have "\<dots> \<longleftrightarrow> int i < \<lceil>q\<rceil>" by (simp only: less_ceiling_iff)
  also have "\<dots> \<longleftrightarrow> i < nat \<lceil>q\<rceil>" by auto
  finally show ?thesis using Num by simp
qed simp_all

lemma add_loop_fold:
  "add_loop h node r i m = fold (\<lambda>j. Map_set (h (vkey node j)) node) [i..<loop_bound r] m"
proof (induction h node r i m rule: add_loop.induct)
  case (1 h node r i m)
  show ?case
  proof (cases "js_less (Num (of_nat i)) r")
    case True
    then have "i < loop_bound r" by (simp add: js_less_loop_bound)
    then have "[i..<loop_bound r] = i # [Suc i..<loop_bound r]" by (simp add: upt_conv_Cons)
    with True 1 show ?thesis by (simp add: add_loop.simps [of h node r i m])
  next
    case False
    then have "\<not> i < loop_bound r" by (simp add: js_less_loop_bound)
    with False show ?thesis by (simp add: add_loop.simps [of h node r i m])
  qed
qed

lemma remove_loop_fold:
  "remove_loop h node r i m = fold (\<lambda>j. Map_delete (h (vkey node j))) [i..<loop_bound r] m"
proof (induction h node r i m rule: remove_loop.induct)
  case (1 h node r i m)
  show ?case
  proof (cases "js_less (Num (of_nat i)) r")
    case True
    then have "i < loop_bound r" by (simp add: js_less_loop_bound)
    then have "[i..<loop_bound r] = i # [Suc i..<loop_bound r]" by (simp add: upt_conv_Cons)
    with True 1 show ?thesis by (simp add: remove_loop.simps [of h node r i m])
  next
    case False
    then have "\<not> i < loop_bound r" by (simp add: js_less_loop_bound)
    with False show ?thesis by (simp add: remove_loop.simps [of h node r i m])
  qed
qed

lemma add_loop_positions:
  "add_loop h node r 0 m = fold (\<lambda>p. Map_set p node) (positions h node r) m"
  by (simp add: add_loop_fold positions_def fold_map comp_def)

lemma remove_loop_positions:
  "remove_loop h node r 0 m = fold Map_delete (positions h node r) m"
  by (simp add: remove_loop_fold positions_def fold_map comp_def)

lemma map_of_fold_set:
  "map_of (fold (\<lambda>p. Map_set p v) ps m) k = (if k \<in> set ps then Some v else map_of m k)"
  by (induction ps arbitrary: m) (auto simp: Map_set_def update_conv')

lemma fold_set_triv:
  "\<forall>p \<in> set ps. map_of m p = Some v \<Longrightarrow> fold (\<lambda>p. Map_set p v) ps m = m"
  by (induction ps) (auto simp: Map_set_def update_triv)

lemma fold_set_idem:
  "fold (\<lambda>p. Map_set p v) ps (fold (\<lambda>p. Map_set p v) ps m) = fold (\<lambda>p. Map_set p v) ps m"
  by (rule fold_set_triv) (simp add: map_of_fold_set)

section \<open>The invariant of ring states\<close>

lemma distinct_fold_set:
  "distinct (map fst m) \<Longrightarrow> distinct (map fst (fold (\<lambda>p. Map_set p v) ps m))"
  by (induction ps arbitrary: m) (simp_all add: Map_set_def distinct_update)

lemma distinct_fold_delete:
  "distinct (map fst m) \<Longrightarrow> distinct (map fst (fold Map_delete ps m))"
  by (induction ps arbitrary: m) (simp_all add: Map_delete_def distinct_delete)

lemma values_update: "set (map snd (AList.update k v m)) \<subseteq> insert v (set (map snd m))"
  by (induction m) auto

lemma values_fold_set:
  "set (map snd (fold (\<lambda>p. Map_set p v) ps m)) \<subseteq> insert v (set (map snd m))"
proof (induction ps arbitrary: m)
  case Nil
  then show ?case by auto
next
  case (Cons p ps)
  have "set (map snd (fold (\<lambda>p. Map_set p v) ps (Map_set p v m)))
          \<subseteq> insert v (set (map snd (Map_set p v m)))"
    by (rule Cons.IH)
  also have "\<dots> \<subseteq> insert v (set (map snd m))"
    using values_update [of p v m] by (auto simp: Map_set_def)
  finally show ?case by simp
qed

lemma fold_delete_filter:
  "fold Map_delete ps m = filter (\<lambda>e. fst e \<notin> set ps) m"
proof (induction ps arbitrary: m)
  case Nil
  then show ?case by simp
next
  case (Cons p ps)
  have "Map_delete p m = filter (\<lambda>e. fst e \<noteq> p) m"
    by (simp add: Map_delete_def AList.delete_eq case_prod_unfold eq_commute)
  with Cons show ?case by (simp add: conj_commute)
qed

lemma validate_Inr: "validateIdentifier ident label = Inr u \<longleftrightarrow> valid_id ident"
  by (auto simp: validateIdentifier_def valid_id_def)

lemma ring_inv_add: "ring_inv s \<Longrightarrow> ring_inv (snd (add h node s))"
proof (cases "validateIdentifier node ''Node identifier''")
  case (Inl e)
  assume "ring_inv s"
  with Inl show ?thesis by (simp add: add_def)
next
  case (Inr u)
  assume inv: "ring_inv s"
  from Inr have ne: "node \<noteq> []" by (auto simp: validateIdentifier_def split: if_splits)
  let ?m = "fold (\<lambda>p. Map_set p node) (positions h node (replicas s)) (ring s)"
  have st: "snd (add h node s) = s\<lparr>ring := ?m, sortedKeys := sort (Map_keys ?m)\<rparr>"
    using Inr by (simp add: add_def Let_def add_loop_positions)
  have d: "distinct (map fst ?m)"
    using inv by (intro distinct_fold_set) (simp add: ring_inv_def Map_keys_def)
  have "set (map snd ?m) \<subseteq> insert node (set (map snd (ring s)))"
    by (rule values_fold_set)
  with inv ne have v: "[] \<notin> set (map snd ?m)"
    by (auto simp: ring_inv_def Map_values_def)
  show ?thesis using d v by (simp add: st ring_inv_def Map_keys_def Map_values_def)
qed

lemma ring_inv_remove: "ring_inv s \<Longrightarrow> ring_inv (snd (remove h node s))"
proof (cases "validateIdentifier node ''Node identifier''")
  case (Inl e)
  assume "ring_inv s"
  with Inl show ?thesis by (simp add: remove_def)
next
  case (Inr u)
  assume inv: "ring_inv s"
  let ?m = "fold Map_delete (positions h node (replicas s)) (ring s)"
  have st: "snd (remove h node s) = s\<lparr>ring := ?m, sortedKeys := sort (Map_keys ?m)\<rparr>"
    using Inr by (simp add: remove_def Let_def remove_loop_positions)
  have d: "distinct (map fst ?m)"
    using inv by (intro distinct_fold_delete) (simp add: ring_inv_def Map_keys_def)
  have v: "[] \<notin> set (map snd ?m)"
    using inv by (auto simp: fold_delete_filter ring_inv_def Map_values_def)
  show ?thesis using d v by (simp add: st ring_inv_def Map_keys_def Map_values_def)
qed

lemma ring_inv_constructor: "ring_inv (constructor options)"
  by (simp add: ring_inv_def constructor_def Map_keys_def Map_values_def)

lemma reachable_inv: "reachable h s \<Longrightarrow> ring_inv s"
  by (induction rule: reachable.induct)
     (simp_all add: ring_inv_constructor ring_inv_add ring_inv_remove)

section \<open>The lower-bound binary search\<close>

lemma binarySearch_loop_bounds:
  "left \<le> right \<Longrightarrow> right \<le> length keys
   \<Longrightarrow> \<forall>i<left. keys ! i < target
   \<Longrightarrow> \<forall>i. right \<le> i \<and> i < length keys \<longrightarrow> target \<le> keys ! i
   \<Longrightarrow> sorted keys
   \<Longrightarrow> binarySearch_loop keys target left right \<le> length keys
       \<and> (\<forall>i<binarySearch_loop keys target left right. keys ! i < target)
       \<and> (\<forall>i. binarySearch_loop keys target left right \<le> i \<and> i < length keys
              \<longrightarrow> target \<le> keys ! i)"
proof (induction keys target left right rule: binarySearch_loop.induct)
  case (1 keys target left right)
  show ?case
  proof (cases "left < right")
    case False
    with "1.prems" have eq: "left = right" by simp
    have "binarySearch_loop keys target left right = left"
      using False by (simp add: binarySearch_loop.simps [of keys target left right])
    with "1.prems" eq show ?thesis by simp
  next
    case True
    define mid where "mid = (left + right) div 2"
    have mid: "left \<le> mid" "mid < right" using True by (auto simp: mid_def)
    show ?thesis
    proof (cases "keys ! mid < target")
      case lt: True
      have below: "\<forall>i<mid + 1. keys ! i < target"
      proof (intro allI impI)
        fix i assume "i < mid + 1"
        then have "i \<le> mid" by simp
        moreover have "mid < length keys" using mid "1.prems" by simp
        ultimately have "keys ! i \<le> keys ! mid"
          using \<open>sorted keys\<close> by (simp add: sorted_nth_mono)
        with lt show "keys ! i < target" by simp
      qed
      have "binarySearch_loop keys target left right
              = binarySearch_loop keys target (mid + 1) right"
        using True lt by (simp add: binarySearch_loop.simps [of keys target left right] mid_def Let_def)
      moreover have "binarySearch_loop keys target (mid + 1) right \<le> length keys
         \<and> (\<forall>i<binarySearch_loop keys target (mid + 1) right. keys ! i < target)
         \<and> (\<forall>i. binarySearch_loop keys target (mid + 1) right \<le> i \<and> i < length keys
              \<longrightarrow> target \<le> keys ! i)"
        using "1.IH"(1) [OF True mid_def lt] mid "1.prems" below by simp
      ultimately show ?thesis by simp
    next
      case ge: False
      have above: "\<forall>i. mid \<le> i \<and> i < length keys \<longrightarrow> target \<le> keys ! i"
      proof (intro allI impI)
        fix i assume "mid \<le> i \<and> i < length keys"
        then have "keys ! mid \<le> keys ! i"
          using \<open>sorted keys\<close> by (simp add: sorted_nth_mono)
        with ge show "target \<le> keys ! i" by simp
      qed
      have "binarySearch_loop keys target left right
              = binarySearch_loop keys target left mid"
        using True ge by (simp add: binarySearch_loop.simps [of keys target left right] mid_def Let_def)
      moreover have "binarySearch_loop keys target left mid \<le> length keys
         \<and> (\<forall>i<binarySearch_loop keys target left mid. keys ! i < target)
         \<and> (\<forall>i. binarySearch_loop keys target left mid \<le> i \<and> i < length keys
              \<longrightarrow> target \<le> keys ! i)"
        using "1.IH"(2) [OF True mid_def ge] mid "1.prems" above by simp
      ultimately show ?thesis by simp
    qed
  qed
qed

lemma binarySearch_lower_bound:
  assumes "sorted keys"
  shows "binarySearch keys target \<le> length keys
    \<and> (\<forall>i<binarySearch keys target. keys ! i < target)
    \<and> (\<forall>i. binarySearch keys target \<le> i \<and> i < length keys \<longrightarrow> target \<le> keys ! i)"
  unfolding binarySearch_def
  by (rule binarySearch_loop_bounds) (use assms in auto)

section \<open>Evaluating the concrete examples\<close>

lemmas murmur_defs = murmur3_32_def fmix32_def mix_k_def rotl32_def byte_of_def

lemma vkey_0: "vkey node 0 = node @ '':0''"
  by (simp add: vkey_def string_of_nat.simps [of 0])

lemma vkey_1: "vkey node (Suc 0) = node @ '':1''"
  by (simp add: vkey_def string_of_nat.simps [of "Suc 0"])

lemma positions_2: "positions h node (Num 2) = [h (node @ '':0''), h (node @ '':1'')]"
proof -
  have "[0..<loop_bound (Num 2)] = [0, Suc 0]" by (simp add: upt_rec)
  then show ?thesis by (simp add: positions_def vkey_0 vkey_1)
qed

lemma murmur_node_1: "murmur3_32 ''node-1:0'' = 0x52096b58" "murmur3_32 ''node-1:1'' = 0x22b59606"
  by (simp_all add: murmur_defs)

lemma murmur_node_2: "murmur3_32 ''node-2:0'' = 0x7e43b400" "murmur3_32 ''node-2:1'' = 0x131a6b51"
  by (simp_all add: murmur_defs)

lemma example_ring_value:
  "example_ring =
     \<lparr>ring = [(0x52096b58, ''node-1''), (0x22b59606, ''node-1''),
              (0x7e43b400, ''node-2''), (0x131a6b51, ''node-2'')],
      sortedKeys = [0x131a6b51, 0x22b59606, 0x52096b58, 0x7e43b400],
      replicas = Num 2\<rparr>"
  by (simp add: example_ring_def add_def constructor_def validateIdentifier_def MAX_LENGTH_def
      Let_def add_loop_positions positions_2 murmur_node_1 murmur_node_2 Map_set_def Map_keys_def)

lemma murmur_keys: "murmur3_32 ''user:123'' = 0x223e14da" "murmur3_32 ''key'' = 0xe29c6a44"
  by (simp_all add: murmur_defs)

section \<open>Resolving a hash to a position\<close>

lemmas eval_defs = validateIdentifier_def MAX_LENGTH_def Map_size_def Map_get_def Map_keys_def
  Map_values_def Let_def owner_at_def binarySearch_def new_Set_def Set_add_def

lemma reachable_example_ring: "reachable murmur3_32 example_ring"
  unfolding example_ring_def by (intro reach_add reach_new)

lemma sortedKeys_props:
  assumes "ring_inv s"
  shows "sorted (sortedKeys s)" and "set (sortedKeys s) = set (Map_keys (ring s))"
    and "length (sortedKeys s) = Map_size (ring s)" and "distinct (sortedKeys s)"
  using assms by (simp_all add: ring_inv_def Map_size_def Map_keys_def)

lemma owner_at_Some:
  assumes "ring_inv s" "idx < length (sortedKeys s)"
  shows "\<exists>n. owner_at s idx = Some n \<and> n \<noteq> [] \<and> n \<in> set (Map_values (ring s))"
proof -
  have "sortedKeys s ! idx \<in> set (sortedKeys s)" using assms(2) by simp
  then have "sortedKeys s ! idx \<in> fst ` set (ring s)"
    using sortedKeys_props(2) [OF assms(1)] by (simp add: Map_keys_def)
  then obtain n where n: "map_of (ring s) (sortedKeys s ! idx) = Some n"
    by (metis domD dom_map_of_conv_image_fst)
  then have "(sortedKeys s ! idx, n) \<in> set (ring s)" by (rule map_of_SomeD)
  then have "n \<in> set (Map_values (ring s))" by (force simp: Map_values_def)
  moreover from this assms(1) have "n \<noteq> []" by (auto simp: ring_inv_def)
  ultimately show ?thesis using n assms(2) by (simp add: owner_at_def Map_get_def)
qed

text \<open>The position the lookup resolves a hash to.\<close>

lemma resolve_index:
  assumes srt: "sorted keys" and ne: "keys \<noteq> []"
  shows "keys ! (if binarySearch keys target \<ge> length keys then 0 else binarySearch keys target)
           = (if {p \<in> set keys. target \<le> p} = {} then keys ! 0
              else Min {p \<in> set keys. target \<le> p})"
proof -
  define idx where "idx = binarySearch keys target"
  define cands where "cands = {p \<in> set keys. target \<le> p}"
  note bs = binarySearch_lower_bound [OF srt, of target, folded idx_def]
  have "keys ! (if idx \<ge> length keys then 0 else idx)
           = (if cands = {} then keys ! 0 else Min cands)"
  proof (cases "idx \<ge> length keys")
    case True
    have "cands = {}"
    proof (rule ccontr)
      assume "cands \<noteq> {}"
      then obtain p where "p \<in> set keys" "target \<le> p" by (auto simp: cands_def)
      then obtain i where "i < length keys" "keys ! i = p" by (auto simp: in_set_conv_nth)
      with True bs have "p < target" by auto
      with \<open>target \<le> p\<close> show False by simp
    qed
    with True show ?thesis by simp
  next
    case False
    then have lt: "idx < length keys" by simp
    with bs have ge: "target \<le> keys ! idx" by simp
    have mem: "keys ! idx \<in> cands" using lt ge by (simp add: cands_def)
    have fin: "finite cands" by (simp add: cands_def)
    have least: "keys ! idx \<le> p" if "p \<in> cands" for p
    proof -
      from that obtain i where i: "i < length keys" "keys ! i = p" "target \<le> p"
        by (auto simp: cands_def in_set_conv_nth)
      have "idx \<le> i"
      proof (rule ccontr)
        assume "\<not> idx \<le> i"
        then have "i < idx" by simp
        with bs have "keys ! i < target" by simp
        with i show False by simp
      qed
      with srt i show ?thesis by (auto simp: sorted_nth_mono)
    qed
    have "Min cands = keys ! idx"
      by (rule Min_eqI [OF fin least mem])
    with False mem show ?thesis by auto
  qed
  then show ?thesis unfolding idx_def cands_def .
qed

section \<open>Owners of positions\<close>

lemma owners_eq_values:
  assumes "distinct (Map_keys m)"
  shows "{n. \<exists>p. Map_get m p = Some n} = set (Map_values m)"
proof -
  have "{n. \<exists>p. map_of m p = Some n} = ran (map_of m)" by (simp add: ran_def)
  also have "\<dots> = snd ` set m"
    using assms by (simp add: ran_distinct Map_keys_def)
  finally show ?thesis by (simp add: Map_get_def Map_values_def)
qed

section \<open>The clockwise walk of getN\<close>

lemma upt_shift: "[0..<Suc n] = 0 # map Suc [0..<n]"
  by (simp add: upt_conv_Cons map_Suc_upt del: upt_Suc)

lemma getN_loop_collect:
  assumes "0 < length (sortedKeys s)"
  shows "getN_loop s count i idx seen result =
     collect_owners count
       (map (\<lambda>j. owner_at s ((wrap_index s idx + j) mod length (sortedKeys s)))
            [0..<length (sortedKeys s) - i]) seen result"
  using assms
proof (induction s count i idx seen result rule: getN_loop.induct)
  case (1 s count i idx seen result)
  let ?L = "length (sortedKeys s)"
  let ?w = "wrap_index s idx"
  have wlt: "?w < ?L" using "1.prems" by (simp add: wrap_index_def)
  show ?case
  proof (cases "i < ?L")
    case False
    then show ?thesis by (simp add: getN_loop.simps [of s count i idx seen result])
  next
    case iL: True
    then obtain n where n: "?L - i = Suc n" by (cases "?L - i") auto
    then have n': "?L - Suc i = n" by simp
    have w': "wrap_index s (Suc ?w) = Suc ?w mod ?L"
      using wlt by (auto simp: wrap_index_def le_Suc_eq mod_Suc)
    have shift: "(wrap_index s (Suc ?w) + j) mod ?L = (?w + Suc j) mod ?L" for j
      unfolding w' by (simp add: mod_add_left_eq)
    have walk: "map (\<lambda>j. owner_at s ((?w + j) mod ?L)) [0..<?L - i]
        = owner_at s ?w #
          map (\<lambda>j. owner_at s ((wrap_index s (Suc ?w) + j) mod ?L)) [0..<?L - Suc i]"
      unfolding n n' upt_shift using wlt by (simp add: comp_def shift)
    show ?thesis
    proof (cases "int (length result) < count")
      case False
      then show ?thesis
        unfolding walk by (simp add: getN_loop.simps [of s count i idx seen result])
    next
      case c: True
      have cond: "i < ?L \<and> int (length result) < count" using iL c by simp
      have weq: "(if ?L \<le> idx then 0 else idx) = ?w" by (simp add: wrap_index_def)
      show ?thesis
      proof (cases "owner_at s ?w")
        case None
        have "getN_loop s count i idx seen result
                = getN_loop s count (Suc i) (Suc ?w) seen result"
          using cond None by (simp add: getN_loop.simps [of s count i idx seen result] weq Let_def)
        also have "\<dots> = collect_owners count
            (map (\<lambda>j. owner_at s ((wrap_index s (Suc ?w) + j) mod ?L)) [0..<?L - Suc i])
            seen result"
          using "1.IH"(1) [OF cond refl None [folded weq] "1.prems"] unfolding weq .
        finally show ?thesis unfolding walk using c None by simp
      next
        case (Some node)
        show ?thesis
        proof (cases "node \<noteq> [] \<and> node \<notin> seen")
          case True
          have "getN_loop s count i idx seen result
                  = getN_loop s count (Suc i) (Suc ?w) (insert node seen) (result @ [node])"
            using cond Some True
            by (simp add: getN_loop.simps [of s count i idx seen result] weq Let_def)
          also have "\<dots> = collect_owners count
              (map (\<lambda>j. owner_at s ((wrap_index s (Suc ?w) + j) mod ?L)) [0..<?L - Suc i])
              (insert node seen) (result @ [node])"
            using "1.IH"(2) [OF cond refl Some [folded weq] True "1.prems"] unfolding weq .
          finally show ?thesis unfolding walk using c Some True by simp
        next
          case False
          have "getN_loop s count i idx seen result
                  = getN_loop s count (Suc i) (Suc ?w) seen result"
            using cond Some False
            by (auto simp add: getN_loop.simps [of s count i idx seen result] weq Let_def)
          also have "\<dots> = collect_owners count
              (map (\<lambda>j. owner_at s ((wrap_index s (Suc ?w) + j) mod ?L)) [0..<?L - Suc i])
              seen result"
            using "1.IH"(3) [OF cond refl Some [folded weq] False "1.prems"] unfolding weq .
          finally show ?thesis unfolding walk using c Some False by auto
        qed
      qed
    qed
  qed
qed

lemma collect_owners_prefix: "\<exists>ys. collect_owners count os seen result = result @ ys"
proof (induction os arbitrary: seen result)
  case Nil
  then show ?case by simp
next
  case (Cons ow os)
  show ?case
  proof (cases "int (length result) < count")
    case False
    then show ?thesis by simp
  next
    case True
    show ?thesis
    proof (cases ow)
      case None
      with True Cons.IH [of seen result] show ?thesis by simp
    next
      case (Some node)
      show ?thesis
      proof (cases "node \<noteq> [] \<and> node \<notin> seen")
        case False
        with True Some Cons.IH [of seen result] show ?thesis by auto
      next
        case new: True
        from Cons.IH [of "insert node seen" "result @ [node]"]
        obtain ys where "collect_owners count os (insert node seen) (result @ [node])
            = (result @ [node]) @ ys" by blast
        with True Some new show ?thesis by simp
      qed
    qed
  qed
qed

lemma collect_owners_distinct:
  "distinct result \<Longrightarrow> seen = set result \<Longrightarrow> distinct (collect_owners count os seen result)"
proof (induction os arbitrary: seen result)
  case Nil
  then show ?case by simp
next
  case (Cons ow os)
  show ?case
  proof (cases "int (length result) < count")
    case False
    with Cons.prems show ?thesis by simp
  next
    case True
    show ?thesis
    proof (cases ow)
      case None
      with True Cons.IH [OF Cons.prems] show ?thesis by simp
    next
      case (Some node)
      show ?thesis
      proof (cases "node \<noteq> [] \<and> node \<notin> seen")
        case False
        with True Some Cons.IH [OF Cons.prems] show ?thesis by auto
      next
        case new: True
        have "distinct (result @ [node])" and "insert node seen = set (result @ [node])"
          using Cons.prems new by auto
        then have "distinct (collect_owners count os (insert node seen) (result @ [node]))"
          by (rule Cons.IH)
        with True Some new show ?thesis by simp
      qed
    qed
  qed
qed


lemma finite_named_owners: "finite (named_owners os)"
proof -
  have "named_owners os \<subseteq> the ` set os"
    by (force simp: named_owners_def)
  then show ?thesis by (rule finite_subset) simp
qed

lemma collect_owners_length:
  "seen = set result \<Longrightarrow>
   length (collect_owners count os seen result) =
     (if count \<le> int (length result) then length result
      else min (nat count) (length result + card (named_owners os - seen)))"
proof (induction os arbitrary: seen result)
  case Nil
  then show ?case by (auto simp: named_owners_def)
next
  case (Cons ow os)
  show ?case
  proof (cases "int (length result) < count")
    case False
    then show ?thesis by simp
  next
    case True
    show ?thesis
    proof (cases "\<exists>node. ow = Some node \<and> node \<noteq> [] \<and> node \<notin> seen")
      case False
      then have step: "collect_owners count (ow # os) seen result
          = collect_owners count os seen result"
        using True by (cases ow) auto
      have "named_owners (ow # os) - seen = named_owners os - seen"
        using False by (auto simp: named_owners_def)
      with step Cons.IH [OF Cons.prems] True show ?thesis by simp
    next
      case new: True
      then obtain node where node: "ow = Some node" "node \<noteq> []" "node \<notin> seen" by blast
      have step: "collect_owners count (ow # os) seen result
          = collect_owners count os (insert node seen) (result @ [node])"
        using True node by simp
      have seen': "insert node seen = set (result @ [node])" using Cons.prems by simp
      have split: "named_owners (ow # os) - seen
          = insert node (named_owners os - insert node seen)"
        using node by (auto simp: named_owners_def)
      have "card (named_owners (ow # os) - seen)
          = Suc (card (named_owners os - insert node seen))"
        unfolding split by (rule card_insert_disjoint) (simp_all add: finite_named_owners)
      with step Cons.IH [OF seen'] True show ?thesis by auto
    qed
  qed
qed

lemma walk_is_rotation:
  assumes "w < L"
  shows "map (\<lambda>j. f ((w + j) mod L)) [0..<L] = rotate w (map f [0..<L])"
proof (rule nth_equalityI)
  show "length (map (\<lambda>j. f ((w + j) mod L)) [0..<L]) = length (rotate w (map f [0..<L]))"
    by simp
next
  fix j
  assume "j < length (map (\<lambda>j. f ((w + j) mod L)) [0..<L])"
  then have j: "j < L" by simp
  then have m: "(w + j) mod L < L" by simp
  have "rotate w (map f [0..<L]) ! j = map f [0..<L] ! ((w + j) mod length (map f [0..<L]))"
    by (rule nth_rotate) (simp add: j)
  also have "\<dots> = f ((w + j) mod L)" using m by simp
  finally show "map (\<lambda>j. f ((w + j) mod L)) [0..<L] ! j = rotate w (map f [0..<L]) ! j"
    using j by simp
qed

lemma walk_owners:
  assumes inv: "ring_inv s" and w: "w < length (sortedKeys s)"
  shows "named_owners (map (\<lambda>j. owner_at s ((w + j) mod length (sortedKeys s)))
            [0..<length (sortedKeys s)]) = set (Map_values (ring s))"
proof -
  let ?L = "length (sortedKeys s)"
  let ?W = "map (\<lambda>j. owner_at s ((w + j) mod ?L)) [0..<?L]"
  have "set ?W = set (map (owner_at s) [0..<?L])"
    unfolding walk_is_rotation [OF w] by simp
  then have sw: "set ?W = owner_at s ` {0..<?L}" by simp
  have d: "distinct (Map_keys (ring s))" using inv by (simp add: ring_inv_def)
  have keys: "set (sortedKeys s) = set (Map_keys (ring s))"
    using inv by (simp add: ring_inv_def)
  show ?thesis
  proof (intro set_eqI iffI)
    fix n assume "n \<in> named_owners ?W"
    then obtain i where "i < ?L" "owner_at s i = Some n"
      unfolding named_owners_def sw by auto
    then have "Map_get (ring s) (sortedKeys s ! i) = Some n" by (simp add: owner_at_def)
    then have "n \<in> {n. \<exists>p. Map_get (ring s) p = Some n}" by blast
    then show "n \<in> set (Map_values (ring s))" unfolding owners_eq_values [OF d] .
  next
    fix n assume n: "n \<in> set (Map_values (ring s))"
    then have "n \<in> {n. \<exists>p. Map_get (ring s) p = Some n}" unfolding owners_eq_values [OF d] .
    then obtain p where p: "Map_get (ring s) p = Some n" by blast
    then have "p \<in> fst ` set (ring s)"
      by (metis Map_get_def domI dom_map_of_conv_image_fst)
    then have "p \<in> set (sortedKeys s)" unfolding keys by (simp add: Map_keys_def)
    then obtain i where i: "i < ?L" "sortedKeys s ! i = p" by (auto simp: in_set_conv_nth)
    then have "owner_at s i = Some n" using p by (simp add: owner_at_def)
    then have "Some n \<in> set ?W" unfolding sw using i(1) by force
    moreover have "n \<noteq> []" using n inv by (auto simp: ring_inv_def)
    ultimately show "n \<in> named_owners ?W" by (simp add: named_owners_def)
  qed
qed

section \<open>Removing what was added\<close>

lemma filter_update_other:
  "\<not> P k \<Longrightarrow> filter (\<lambda>e. P (fst e)) (AList.update k v m) = filter (\<lambda>e. P (fst e)) m"
  by (induction m) auto

lemma filter_fold_set:
  "set qs \<subseteq> ps \<Longrightarrow>
   filter (\<lambda>e. fst e \<notin> ps) (fold (\<lambda>p. Map_set p v) qs m) = filter (\<lambda>e. fst e \<notin> ps) m"
proof (induction qs arbitrary: m)
  case Nil
  then show ?case by simp
next
  case (Cons q qs)
  then have "filter (\<lambda>e. fst e \<notin> ps) (fold (\<lambda>p. Map_set p v) qs (Map_set q v m))
      = filter (\<lambda>e. fst e \<notin> ps) (Map_set q v m)" by simp
  also have "\<dots> = filter (\<lambda>e. fst e \<notin> ps) m"
    unfolding Map_set_def using Cons.prems
    by (intro filter_update_other [of "\<lambda>k. k \<notin> ps"]) simp
  finally show ?case by simp
qed

lemma remove_after_add_ring:
  assumes "set ps \<inter> fst ` set m = {}"
  shows "fold Map_delete ps (fold (\<lambda>p. Map_set p v) ps m) = m"
proof -
  have "fold Map_delete ps (fold (\<lambda>p. Map_set p v) ps m)
      = filter (\<lambda>e. fst e \<notin> set ps) (fold (\<lambda>p. Map_set p v) ps m)"
    by (rule fold_delete_filter)
  also have "\<dots> = filter (\<lambda>e. fst e \<notin> set ps) m"
    by (rule filter_fold_set) simp
  also have "\<dots> = m" using assms by (auto simp: filter_id_conv)
  finally show ?thesis .
qed

lemma murmur_collision:
  "murmur3_32 ''node-12915:0'' = 0x6b8bdfa8" "murmur3_32 ''node-12915:1'' = 0x688180a1"
  "murmur3_32 ''node-350751:0'' = 0x6b8bdfa8" "murmur3_32 ''node-350751:1'' = 0x94bd792f"
  by (simp_all add: murmur_defs)

lemma murmur_node_3: "murmur3_32 ''node-3:0'' = 0x23009f5b" "murmur3_32 ''node-3:1'' = 0xe4cb8038"
  by (simp_all add: murmur_defs)

lemma positions_1: "positions h node (Num 1) = [h (node @ '':0'')]"
  by (simp add: positions_def vkey_0)

lemma single_replica_ring_value:
  "single_replica_ring =
     \<lparr>ring = [(0x6b8bdfa8, ''node-350751'')], sortedKeys = [0x6b8bdfa8], replicas = Num 1\<rparr>"
  by (simp add: single_replica_ring_def add_def constructor_def eval_defs
      add_loop_positions positions_1 murmur_collision Map_set_def)

lemma reachable_single_replica_ring: "reachable murmur3_32 single_replica_ring"
  unfolding single_replica_ring_def by (intro reach_add reach_new)

section \<open>Rings without collisions and their snapshots\<close>

lemma map_of_filter_keys:
  "map_of (filter (\<lambda>e. fst e \<notin> A) m) p = (if p \<in> A then None else map_of m p)"
  by (induction m) auto

lemma add_invalid: "\<not> valid_id node \<Longrightarrow> snd (add h node s) = s"
  by (auto simp: add_def validateIdentifier_def valid_id_def)

lemma remove_invalid: "\<not> valid_id node \<Longrightarrow> snd (remove h node s) = s"
  by (auto simp: remove_def validateIdentifier_def valid_id_def)

lemma add_valid: "valid_id node \<Longrightarrow> fst (add h node s) = Inr ()"
  by (simp add: add_def validateIdentifier_def valid_id_def Let_def)

lemma replicas_add: "replicas (snd (add h node s)) = replicas s"
  by (simp add: add_def Let_def split: sum.splits)

lemma replicas_remove: "replicas (snd (remove h node s)) = replicas s"
  by (simp add: remove_def Let_def split: sum.splits)

lemma map_of_add:
  assumes "valid_id node"
  shows "map_of (ring (snd (add h node s))) p =
     (if p \<in> set (positions h node (replicas s)) then Some node else map_of (ring s) p)"
proof -
  have "validateIdentifier node ''Node identifier'' = Inr ()"
    using assms by (simp add: validate_Inr)
  then show ?thesis
    by (simp add: add_def Let_def add_loop_positions map_of_fold_set)
qed

lemma map_of_remove:
  assumes "valid_id node"
  shows "map_of (ring (snd (remove h node s))) p =
     (if p \<in> set (positions h node (replicas s)) then None else map_of (ring s) p)"
proof -
  have "validateIdentifier node ''Node identifier'' = Inr ()"
    using assms by (simp add: validate_Inr)
  then show ?thesis
    by (simp add: remove_def Let_def remove_loop_positions fold_delete_filter
        map_of_filter_keys)
qed

lemma within_reachable: "reachable_within h ids s \<Longrightarrow> reachable h s"
  by (induction rule: reachable_within.induct) (auto intro: reachable.intros)

lemma collision_free_disjoint:
  "collision_free h r ids \<Longrightarrow> a \<in> ids \<Longrightarrow> b \<in> ids \<Longrightarrow> a \<noteq> b
   \<Longrightarrow> p \<in> set (positions h a r) \<Longrightarrow> p \<notin> set (positions h b r)"
  by (auto simp: collision_free_def)

lemma collision_free_subset:
  "collision_free h r ids \<Longrightarrow> ids' \<subseteq> ids \<Longrightarrow> collision_free h r ids'"
  by (auto simp: collision_free_def)

lemma within_owners_complete:
  assumes "reachable_within h ids s" and "collision_free h (replicas s) ids"
  shows "map_of (ring s) p = Some n \<Longrightarrow>
     n \<in> ids \<and> valid_id n \<and> p \<in> set (positions h n (replicas s))
     \<and> (\<forall>p' \<in> set (positions h n (replicas s)). map_of (ring s) p' = Some n)"
  using assms
proof (induction arbitrary: p n rule: reachable_within.induct)
  case (within_new options)
  then show ?case by (simp add: constructor_def)
next
  case (within_add s node)
  have cf: "collision_free h (replicas s) ids"
    using within_add.prems(2) by (simp add: replicas_add)
  note IH = within_add.IH [OF _ cf]
  show ?case
  proof (cases "valid_id node")
    case False
    then have same: "snd (add h node s) = s" by (rule add_invalid)
    from within_add.prems(1) have "map_of (ring s) p = Some n" unfolding same .
    from IH [OF this] show ?thesis unfolding same .
  next
    case v: True
    let ?P = "\<lambda>n. set (positions h n (replicas s))"
    note m = map_of_add [OF v, of h s]
    show ?thesis
    proof (cases "p \<in> ?P node")
      case True
      with within_add.prems(1) have "n = node" by (simp add: m)
      with True v within_add.hyps(2) show ?thesis by (simp add: m replicas_add)
    next
      case False
      with within_add.prems(1) have old: "map_of (ring s) p = Some n" by (simp add: m)
      note o = IH [OF old]
      have "map_of (ring (snd (add h node s))) p' = Some n" if "p' \<in> ?P n" for p'
      proof (cases "n = node")
        case True
        with that show ?thesis by (simp add: m)
      next
        case False
        with that o within_add.hyps(2) cf have "p' \<notin> ?P node"
          by (auto dest: collision_free_disjoint)
        with that o show ?thesis by (simp add: m)
      qed
      with o show ?thesis by (simp add: replicas_add)
    qed
  qed
next
  case (within_remove s node)
  have cf: "collision_free h (replicas s) ids"
    using within_remove.prems(2) by (simp add: replicas_remove)
  note IH = within_remove.IH [OF _ cf]
  show ?case
  proof (cases "valid_id node")
    case False
    then have same: "snd (remove h node s) = s" by (rule remove_invalid)
    from within_remove.prems(1) have "map_of (ring s) p = Some n" unfolding same .
    from IH [OF this] show ?thesis unfolding same .
  next
    case v: True
    let ?P = "\<lambda>n. set (positions h n (replicas s))"
    note m = map_of_remove [OF v, of h s]
    from within_remove.prems(1) have notin: "p \<notin> ?P node" and old: "map_of (ring s) p = Some n"
      by (auto simp: m split: if_splits)
    note o = IH [OF old]
    from o notin have ne: "n \<noteq> node" by auto
    have "map_of (ring (snd (remove h node s))) p' = Some n" if "p' \<in> ?P n" for p'
    proof -
      from that o ne within_remove.hyps(2) cf have "p' \<notin> ?P node"
        by (auto dest: collision_free_disjoint)
      with that o show ?thesis by (simp add: m)
    qed
    with o show ?thesis by (simp add: replicas_remove)
  qed
qed

lemma replicas_adds: "replicas (fold (\<lambda>n s. snd (add h n s)) ns s) = replicas s"
  by (induction ns arbitrary: s) (simp_all add: replicas_add)

lemma reachable_adds:
  "reachable h s \<Longrightarrow> reachable h (fold (\<lambda>n s. snd (add h n s)) ns s)"
  by (induction ns arbitrary: s) (simp_all add: reach_add)

lemma fromJSON_loop_adds:
  "\<forall>n \<in> set ns. valid_id n \<Longrightarrow>
   fromJSON_loop h ns s = Inr (fold (\<lambda>n s. snd (add h n s)) ns s)"
proof (induction ns arbitrary: s)
  case Nil
  then show ?case by simp
next
  case (Cons n ns)
  obtain r s' where eq: "add h n s = (r, s')" by (cases "add h n s")
  from Cons.prems have "fst (add h n s) = Inr ()" by (intro add_valid) simp
  then have r: "r = Inr ()" by (simp add: eq)
  have s': "snd (add h n s) = s'" by (simp add: eq)
  from Cons.prems have "fromJSON_loop h ns s' = Inr (fold (\<lambda>n s. snd (add h n s)) ns s')"
    by (intro Cons.IH) simp
  then show ?case by (simp add: eq r)
qed

lemma map_of_adds_other:
  assumes "\<forall>n \<in> set ns. valid_id n"
    and "\<forall>n \<in> set ns. p \<notin> set (positions h n (replicas s))"
  shows "map_of (ring (fold (\<lambda>n s. snd (add h n s)) ns s)) p = map_of (ring s) p"
  using assms
proof (induction ns rule: rev_induct)
  case Nil
  then show ?case by simp
next
  case (snoc x xs)
  have vx: "valid_id x" using snoc.prems(1) by simp
  have px: "p \<notin> set (positions h x (replicas s))" using snoc.prems(2) by simp
  have "map_of (ring (fold (\<lambda>n s. snd (add h n s)) xs s)) p = map_of (ring s) p"
    using snoc.prems by (intro snoc.IH) simp_all
  with px show ?case by (simp add: map_of_add [OF vx] replicas_adds)
qed

lemma map_of_adds_owner:
  assumes "\<forall>n \<in> set ns. valid_id n" and "collision_free h (replicas s) (set ns)"
    and "n \<in> set ns" and "p \<in> set (positions h n (replicas s))"
  shows "map_of (ring (fold (\<lambda>n s. snd (add h n s)) ns s)) p = Some n"
  using assms
proof (induction ns rule: rev_induct)
  case Nil
  then show ?case by simp
next
  case (snoc x xs)
  let ?s = "fold (\<lambda>n s. snd (add h n s)) xs s"
  have vx: "valid_id x" using snoc.prems(1) by simp
  have step: "map_of (ring (fold (\<lambda>n s. snd (add h n s)) (xs @ [x]) s)) p
      = (if p \<in> set (positions h x (replicas s)) then Some x else map_of (ring ?s) p)"
    by (simp add: map_of_add [OF vx] replicas_adds)
  show ?case
  proof (cases "p \<in> set (positions h x (replicas s))")
    case True
    have "n = x"
    proof (rule ccontr)
      assume "n \<noteq> x"
      then have "p \<notin> set (positions h x (replicas s))"
        using collision_free_disjoint [OF snoc.prems(2), of n x p] snoc.prems(3,4) by simp
      with True show False by simp
    qed
    with True show ?thesis unfolding step by simp
  next
    case False
    with snoc.prems(3,4) have nx: "n \<in> set xs" by auto
    have cf: "collision_free h (replicas s) (set xs)"
      using snoc.prems(2) by (rule collision_free_subset) auto
    have "map_of (ring ?s) p = Some n"
      using snoc.prems(1) cf nx snoc.prems(4) by (intro snoc.IH) simp_all
    with False show ?thesis unfolding step by simp
  qed
qed

lemma size_and_nodes_owner_set:
  assumes "ring_inv s"
  shows "set (get_nodes s) = {n. \<exists>p. Map_get (ring s) p = Some n}"
proof -
  have "distinct (Map_keys (ring s))" using assms by (simp add: ring_inv_def)
  then show ?thesis
    by (simp add: owners_eq_values get_nodes_def set_new_Set)
qed

lemma get_depends_on:
  assumes "map_of (ring s') = map_of (ring s)" and "sortedKeys s' = sortedKeys s"
    and "Map_size (ring s') = 0 \<longleftrightarrow> Map_size (ring s) = 0"
  shows "fst (get h k s') = fst (get h k s)"
proof -
  have "owner_at s' idx = owner_at s idx" for idx
    using assms(1,2) by (simp add: owner_at_def Map_get_def)
  then show ?thesis
    using assms(2,3) by (simp add: get_def Let_def split: sum.splits)
qed

lemma same_map_same_index:
  assumes "ring_inv s'" and "ring_inv s" and "map_of (ring s') = map_of (ring s)"
  shows "set (Map_keys (ring s')) = set (Map_keys (ring s))"
    and "sortedKeys s' = sortedKeys s"
    and "Map_size (ring s') = 0 \<longleftrightarrow> Map_size (ring s) = 0"
proof -
  have "dom (map_of (ring s')) = dom (map_of (ring s))" using assms(3) by simp
  then show keys: "set (Map_keys (ring s')) = set (Map_keys (ring s))"
    by (simp add: dom_map_of_conv_image_fst Map_keys_def)
  have "sorted (sortedKeys s')" "distinct (sortedKeys s')" "sorted (sortedKeys s)"
    "distinct (sortedKeys s)" "set (sortedKeys s') = set (sortedKeys s)"
    using sortedKeys_props [OF assms(1)] sortedKeys_props [OF assms(2)] keys by simp_all
  then show "sortedKeys s' = sortedKeys s"
    by (intro sorted_distinct_set_unique)
  have "ring s' = [] \<longleftrightarrow> ring s = []"
    using keys by (cases "ring s'"; cases "ring s") (auto simp: Map_keys_def)
  then show "Map_size (ring s') = 0 \<longleftrightarrow> Map_size (ring s) = 0"
    by (simp add: Map_size_def)
qed

lemma murmur_key_42: "murmur3_32 ''key:42'' = 0x6b6254b4"
  by (simp add: murmur_defs)

lemma collided_ring_value:
  "collided_ring =
     \<lparr>ring = [(0x6b8bdfa8, ''node-350751''), (0x688180a1, ''node-12915''),
              (0x94bd792f, ''node-350751'')],
      sortedKeys = [0x688180a1, 0x6b8bdfa8, 0x94bd792f],
      replicas = Num 2\<rparr>"
  by (simp add: collided_ring_def add_def constructor_def eval_defs
      add_loop_positions positions_2 murmur_collision Map_set_def)

lemma reachable_collided_ring: "reachable murmur3_32 collided_ring"
  unfolding collided_ring_def by (intro reach_add reach_new)

text \<open>
  The condition of the amended claim C5 is also necessary: when a position of the
  identifier is occupied, adding and removing the identifier changes the ring.
\<close>

lemma add_then_remove_occupied:
  assumes "valid_id nodeId"
    and "p \<in> set (positions h nodeId (replicas s))" and "p \<in> set (Map_keys (ring s))"
  shows "snd (remove h nodeId (snd (add h nodeId s))) \<noteq> s"
proof
  assume eq: "snd (remove h nodeId (snd (add h nodeId s))) = s"
  have "map_of (ring (snd (remove h nodeId (snd (add h nodeId s))))) p = None"
    using assms(2) by (simp add: map_of_remove [OF assms(1)] replicas_add)
  then have "map_of (ring s) p = None" unfolding eq .
  then have "p \<notin> fst ` set (ring s)" by (simp add: map_of_eq_None_iff)
  with assms(3) show False by (simp add: Map_keys_def)
qed

section \<open>The claims\<close>

text \<open>
  Claim C1. For every valid key and every non-empty ring, \<open>get\<close> hashes the key, selects
  the smallest element of the Sorted Index that is greater than or equal to the hash,
  wraps around to the first element of the Sorted Index when there is none, and returns
  the owner the ring holds at that position. The Sorted Index is the ascending sequence of
  the positions of the ring, and the owner is present.
\<close>

theorem get_lower_bound_wraparound:
  assumes "reachable h s" and "valid_id key" and "Map_size (ring s) \<noteq> 0"
  shows "sorted (sortedKeys s) \<and> set (sortedKeys s) = set (Map_keys (ring s))
    \<and> (let position = h key;
            cands = {p \<in> set (sortedKeys s). position \<le> p};
            resolved = (if cands = {} then sortedKeys s ! 0 else Min cands)
        in get h key s = (Inr (Map_get (ring s) resolved), s)
           \<and> Map_get (ring s) resolved \<noteq> None)"
proof -
  have inv: "ring_inv s" using assms(1) by (rule reachable_inv)
  note sk = sortedKeys_props [OF inv]
  have ne: "sortedKeys s \<noteq> []" using sk(3) assms(3) by auto
  define idx where "idx = binarySearch (sortedKeys s) (h key)"
  define idx' where "idx' = (if idx \<ge> length (sortedKeys s) then 0 else idx)"
  define resolved where "resolved =
     (if {p \<in> set (sortedKeys s). h key \<le> p} = {} then sortedKeys s ! 0
      else Min {p \<in> set (sortedKeys s). h key \<le> p})"
  have lt: "idx' < length (sortedKeys s)" using ne by (simp add: idx'_def)
  have res: "sortedKeys s ! idx' = resolved"
    unfolding idx'_def idx_def resolved_def by (rule resolve_index [OF sk(1) ne])
  have own: "owner_at s idx' = Map_get (ring s) resolved"
    using lt res by (simp add: owner_at_def)
  have v: "validateIdentifier key ''Key'' = Inr ()"
    using assms(2) by (simp add: validate_Inr)
  have g: "get h key s = (Inr (owner_at s idx'), s)"
    using v assms(3) by (simp add: get_def Let_def idx'_def idx_def)
  have "Map_get (ring s) resolved \<noteq> None"
    using owner_at_Some [OF inv lt] own by auto
  with g own have "get h key s = (Inr (Map_get (ring s) resolved), s)
      \<and> Map_get (ring s) resolved \<noteq> None"
    by simp
  then show ?thesis
    unfolding Let_def resolved_def using sk(1,2) by blast
qed

theorem get_lower_bound_wraparound_witness:
  "reachable murmur3_32 example_ring \<and> valid_id ''user:123'' \<and> valid_id ''key''
   \<and> Map_size (ring example_ring) \<noteq> 0
   \<and> get murmur3_32 ''user:123'' example_ring = (Inr (Some ''node-1''), example_ring)
   \<and> get murmur3_32 ''key'' example_ring = (Inr (Some ''node-2''), example_ring)"
proof -
  have r: "reachable murmur3_32 example_ring" by (rule reachable_example_ring)
  have v1: "valid_id ''user:123''" and v2: "valid_id ''key''"
    by (simp_all add: valid_id_def MAX_LENGTH_def)
  have n: "Map_size (ring example_ring) \<noteq> 0"
    by (simp add: example_ring_value Map_size_def)
  have c1: "{p \<in> set (sortedKeys example_ring). murmur3_32 ''user:123'' \<le> p}
              = {0x22b59606, 0x52096b58, 0x7e43b400}"
    by (auto simp add: example_ring_value murmur_keys)
  have c2: "{p \<in> set (sortedKeys example_ring). murmur3_32 ''key'' \<le> p} = {}"
    by (auto simp add: example_ring_value murmur_keys)
  have m: "Min {0x22b59606, 0x52096b58, 0x7e43b400 :: position} = 0x22b59606"
    by simp
  have "get murmur3_32 ''user:123'' example_ring = (Inr (Some ''node-1''), example_ring)"
    using get_lower_bound_wraparound [OF r v1 n]
    unfolding Let_def c1 m by (simp add: example_ring_value Map_get_def)
  moreover have "get murmur3_32 ''key'' example_ring = (Inr (Some ''node-2''), example_ring)"
    using get_lower_bound_wraparound [OF r v2 n]
    unfolding Let_def c2 by (simp add: example_ring_value Map_get_def)
  ultimately show ?thesis using r v1 v2 n by simp
qed

text \<open>
  Claim C2. Calling \<open>add\<close> twice with the same identifier leaves the ring in exactly the
  state one call leaves it in: the same positions are written with the same owner, so
  the whole state, and with it \<open>size\<close>, \<open>nodes\<close> and the position count of \<open>toString\<close>, is
  unchanged by the second call. This holds from every state and for every identifier.
\<close>

theorem add_idempotent:
  "snd (add h nodeId (snd (add h nodeId s))) = snd (add h nodeId s)
   \<and> get_size (snd (add h nodeId (snd (add h nodeId s)))) = get_size (snd (add h nodeId s))
   \<and> get_nodes (snd (add h nodeId (snd (add h nodeId s)))) = get_nodes (snd (add h nodeId s))
   \<and> toString_positions (snd (add h nodeId (snd (add h nodeId s))))
       = toString_positions (snd (add h nodeId s))"
proof -
  have "snd (add h nodeId (snd (add h nodeId s))) = snd (add h nodeId s)"
    by (simp add: add_def Let_def add_loop_positions fold_set_idem split: sum.splits)
  then show ?thesis by simp
qed

text \<open>
  Claim C8. For a fixed ring state and key, two calls of \<open>get\<close> return the same owner:
  \<open>get\<close> and \<open>getN\<close> leave the state as it is, so the result of \<open>get\<close> does not depend on the
  lookups made before it.
\<close>

theorem get_deterministic:
  "snd (get h k s) = s \<and> snd (getN h k' n s) = s
   \<and> fst (get h k (snd (get h k s))) = fst (get h k s)
   \<and> fst (get h k (snd (getN h k' n (snd (get h k'' s))))) = fst (get h k s)"
proof -
  have g: "snd (get h key s) = s" for key
    by (simp add: get_def Let_def split: sum.splits)
  have gn: "snd (getN h k' n s) = s"
    by (simp add: getN_def Let_def split: sum.splits)
  show ?thesis by (simp add: g gn)
qed



text \<open>
  Claim C6. In \<open>add\<close>, \<open>remove\<close>, \<open>get\<close> and \<open>getN\<close>, an empty identifier or key raises
  \<open>InvalidArgument Empty\<close> and one longer than 1000 units raises \<open>InvalidArgument TooLong\<close>,
  in both cases before any change or lookup, the ring state staying as it was; a valid
  identifier or key never raises.
\<close>

theorem validation_fails_fast:
  "(ident = [] \<longrightarrow>
      add h ident s = (Inl (InvalidArgument Empty ''Node identifier''), s)
    \<and> remove h ident s = (Inl (InvalidArgument Empty ''Node identifier''), s)
    \<and> get h ident s = (Inl (InvalidArgument Empty ''Key''), s)
    \<and> getN h ident count s = (Inl (InvalidArgument Empty ''Key''), s))
   \<and> (length ident > 1000 \<longrightarrow>
      add h ident s = (Inl (InvalidArgument TooLong ''Node identifier''), s)
    \<and> remove h ident s = (Inl (InvalidArgument TooLong ''Node identifier''), s)
    \<and> get h ident s = (Inl (InvalidArgument TooLong ''Key''), s)
    \<and> getN h ident count s = (Inl (InvalidArgument TooLong ''Key''), s))
   \<and> (ident \<noteq> [] \<and> length ident \<le> 1000 \<longrightarrow>
      fst (add h ident s) = Inr () \<and> fst (remove h ident s) = Inr ()
    \<and> (\<exists>r. fst (get h ident s) = Inr r) \<and> (\<exists>r. fst (getN h ident count s) = Inr r))"
proof -
  have e: "add h ident s = (Inl (InvalidArgument Empty ''Node identifier''), s)
      \<and> remove h ident s = (Inl (InvalidArgument Empty ''Node identifier''), s)
      \<and> get h ident s = (Inl (InvalidArgument Empty ''Key''), s)
      \<and> getN h ident count s = (Inl (InvalidArgument Empty ''Key''), s)"
    if "ident = []"
    using that by (simp add: add_def remove_def get_def getN_def validateIdentifier_def)
  have t: "add h ident s = (Inl (InvalidArgument TooLong ''Node identifier''), s)
      \<and> remove h ident s = (Inl (InvalidArgument TooLong ''Node identifier''), s)
      \<and> get h ident s = (Inl (InvalidArgument TooLong ''Key''), s)
      \<and> getN h ident count s = (Inl (InvalidArgument TooLong ''Key''), s)"
    if "length ident > 1000"
  proof -
    from that have "ident \<noteq> []" by auto
    with that show ?thesis
      by (simp add: add_def remove_def get_def getN_def validateIdentifier_def MAX_LENGTH_def)
  qed
  have v: "fst (add h ident s) = Inr () \<and> fst (remove h ident s) = Inr ()
      \<and> (\<exists>r. fst (get h ident s) = Inr r) \<and> (\<exists>r. fst (getN h ident count s) = Inr r)"
    if "ident \<noteq> [] \<and> length ident \<le> 1000"
    using that
    by (simp add: add_def remove_def get_def getN_def validateIdentifier_def MAX_LENGTH_def
        Let_def)
  show ?thesis using e t v by blast
qed

theorem validation_fails_fast_witness:
  "add murmur3_32 [] example_ring = (Inl (InvalidArgument Empty ''Node identifier''), example_ring)
   \<and> get murmur3_32 [] example_ring = (Inl (InvalidArgument Empty ''Key''), example_ring)
   \<and> length (replicate 1001 CHR ''a'') > 1000
   \<and> remove murmur3_32 (replicate 1001 CHR ''a'') example_ring
        = (Inl (InvalidArgument TooLong ''Node identifier''), example_ring)
   \<and> getN murmur3_32 (replicate 1001 CHR ''a'') 2 example_ring
        = (Inl (InvalidArgument TooLong ''Key''), example_ring)
   \<and> ''node-3'' \<noteq> [] \<and> length ''node-3'' \<le> 1000
   \<and> fst (add murmur3_32 ''node-3'' example_ring) = Inr ()
   \<and> fst (remove murmur3_32 ''node-3'' example_ring) = Inr ()"
proof -
  have l: "length (replicate 1001 CHR ''a'') > 1000" by simp
  have v: "''node-3'' \<noteq> [] \<and> length ''node-3'' \<le> 1000" by simp
  show ?thesis
    using validation_fails_fast [of "[]" murmur3_32 example_ring 2]
      validation_fails_fast [of "replicate 1001 CHR ''a''" murmur3_32 example_ring 2]
      validation_fails_fast [of "''node-3''" murmur3_32 example_ring 2] l v
    by blast
qed

text \<open>
  Claim C7. On an empty ring, for every valid key and every count, \<open>get\<close> returns absence
  and not an error, \<open>getN\<close> returns the empty sequence, the size is 0 and the node list is
  empty.
\<close>

theorem empty_ring_lookups:
  assumes "Map_size (ring s) = 0" and "valid_id k"
  shows "get h k s = (Inr None, s) \<and> getN h k count s = (Inr [], s)
    \<and> get_size s = 0 \<and> get_nodes s = []"
proof -
  have v: "validateIdentifier k ''Key'' = Inr ()"
    using assms(2) by (simp add: validate_Inr)
  have r: "ring s = []" using assms(1) by (simp add: Map_size_def)
  show ?thesis
    using assms(1) by (simp add: get_def getN_def v get_size_def get_nodes_def r
        Map_values_def new_Set_def)
qed

theorem empty_ring_lookups_witness:
  "Map_size (ring (constructor default_options)) = 0 \<and> valid_id ''user:123''
   \<and> get murmur3_32 ''user:123'' (constructor default_options)
        = (Inr None, constructor default_options)
   \<and> getN murmur3_32 ''user:123'' 2 (constructor default_options)
        = (Inr [], constructor default_options)
   \<and> get_size (constructor default_options) = 0
   \<and> get_nodes (constructor default_options) = []"
proof -
  have e: "Map_size (ring (constructor default_options)) = 0"
    by (simp add: constructor_def Map_size_def)
  have v: "valid_id ''user:123''" by (simp add: valid_id_def MAX_LENGTH_def)
  show ?thesis using empty_ring_lookups [OF e v, of murmur3_32 2] e v by simp
qed

text \<open>
  Claim C9. In every reachable ring state, \<open>size\<close> is the number of distinct node
  identifiers that own at least one position of the ring, and \<open>nodes\<close> lists exactly these
  identifiers, each once: both are computed from the position map.
\<close>

theorem size_and_nodes_derived:
  assumes "reachable h s"
  shows "get_size s = card {n. \<exists>p. Map_get (ring s) p = Some n}
    \<and> set (get_nodes s) = {n. \<exists>p. Map_get (ring s) p = Some n}
    \<and> distinct (get_nodes s)"
proof -
  have "ring_inv s" using assms by (rule reachable_inv)
  then have "distinct (Map_keys (ring s))" by (simp add: ring_inv_def)
  then have o: "{n. \<exists>p. Map_get (ring s) p = Some n} = set (Map_values (ring s))"
    by (rule owners_eq_values)
  show ?thesis
    unfolding o by (simp add: get_size_def get_nodes_def length_new_Set set_new_Set distinct_new_Set)
qed

theorem size_and_nodes_derived_witness:
  "reachable murmur3_32 example_ring \<and> get_size example_ring = 2
   \<and> card {n. \<exists>p. Map_get (ring example_ring) p = Some n} = 2
   \<and> {n. \<exists>p. Map_get (ring example_ring) p = Some n} = {''node-1'', ''node-2''}"
proof -
  have r: "reachable murmur3_32 example_ring" by (rule reachable_example_ring)
  have n: "get_nodes example_ring = [''node-1'', ''node-2'']"
    by (simp add: example_ring_value get_nodes_def new_Set_def Set_add_def Map_values_def)
  have z: "get_size example_ring = 2"
    by (simp add: example_ring_value get_size_def new_Set_def Set_add_def Map_values_def)
  from size_and_nodes_derived [OF r] n z
  have "card {n. \<exists>p. Map_get (ring example_ring) p = Some n} = 2"
    and "{n. \<exists>p. Map_get (ring example_ring) p = Some n} = {''node-1'', ''node-2''}"
    by auto
  with r z show ?thesis by simp
qed

text \<open>
  Claim C4. For every non-empty ring, every valid key and every count above 0, \<open>getN\<close>
  returns a sequence whose length is the minimum of the count and the number of distinct
  physical nodes, whose elements are pairwise distinct, and whose first element is the
  owner \<open>get\<close> returns for the key.
\<close>

theorem getN_invariants:
  assumes "reachable h s" and "valid_id k" and "Map_size (ring s) \<noteq> 0" and "count > 0"
  shows "\<exists>res. getN h k count s = (Inr res, s)
    \<and> int (length res) = min count (int (get_size s))
    \<and> distinct res
    \<and> res \<noteq> [] \<and> get h k s = (Inr (Some (res ! 0)), s)"
proof -
  have inv: "ring_inv s" using assms(1) by (rule reachable_inv)
  let ?L = "length (sortedKeys s)"
  have L: "0 < ?L" using sortedKeys_props(3) [OF inv] assms(3) by simp
  define idx where "idx = binarySearch (sortedKeys s) (h k)"
  define w where "w = wrap_index s idx"
  define W where "W = map (\<lambda>j. owner_at s ((w + j) mod ?L)) [0..<?L]"
  define res where "res = collect_owners count W {} []"
  have w: "w < ?L" using L by (simp add: w_def wrap_index_def)
  have v: "validateIdentifier k ''Key'' = Inr ()"
    using assms(2) by (simp add: validate_Inr)
  have "getN_loop s count 0 idx {} [] = res"
    unfolding res_def W_def w_def using getN_loop_collect [OF L, of count 0 idx "{}" "[]"]
    by simp
  then have gN: "getN h k count s = (Inr res, s)"
    using v assms(3,4) by (simp add: getN_def Let_def idx_def)
  have g: "get h k s = (Inr (owner_at s w), s)"
    using v assms(3) by (simp add: get_def Let_def idx_def w_def wrap_index_def)
  have no: "named_owners W = set (Map_values (ring s))"
    unfolding W_def by (rule walk_owners [OF inv w])
  have "length res = min (nat count) (card (named_owners W))"
    unfolding res_def using collect_owners_length [of "{}" "[]" count W] assms(4) by simp
  also have "card (named_owners W) = get_size s"
    unfolding no by (simp add: get_size_def length_new_Set)
  finally have "length res = min (nat count) (get_size s)" .
  then have len: "int (length res) = min count (int (get_size s))"
    using assms(4) by linarith
  have dis: "distinct res"
    unfolding res_def by (rule collect_owners_distinct) simp_all
  obtain n where n: "owner_at s w = Some n" "n \<noteq> []"
    using owner_at_Some [OF inv w] by blast
  obtain m where m: "?L = Suc m" using L by (cases ?L) auto
  have "W = owner_at s w # map (\<lambda>j. owner_at s ((w + Suc j) mod ?L)) [0..<m]"
    unfolding W_def m upt_shift using w m by (simp add: comp_def)
  then have "res = collect_owners count
      (map (\<lambda>j. owner_at s ((w + Suc j) mod ?L)) [0..<m]) {n} [n]"
    unfolding res_def using n assms(4) by simp
  then obtain ys where "res = [n] @ ys"
    using collect_owners_prefix by metis
  then have first: "res \<noteq> []" "res ! 0 = n" by simp_all
  show ?thesis using gN len dis first g n by simp
qed

theorem getN_invariants_witness:
  "reachable murmur3_32 example_ring \<and> valid_id ''user:123''
   \<and> Map_size (ring example_ring) \<noteq> 0 \<and> (0::int) < 3
   \<and> getN murmur3_32 ''user:123'' 3 example_ring = (Inr [''node-1'', ''node-2''], example_ring)
   \<and> get_size example_ring = 2
   \<and> get murmur3_32 ''user:123'' example_ring = (Inr (Some ''node-1''), example_ring)"
proof -
  have r: "reachable murmur3_32 example_ring" by (rule reachable_example_ring)
  have v: "valid_id ''user:123''" by (simp add: valid_id_def MAX_LENGTH_def)
  have n: "Map_size (ring example_ring) \<noteq> 0"
    by (simp add: example_ring_value Map_size_def)
  have c: "(0::int) < 3" by simp
  have gN: "getN murmur3_32 ''user:123'' 3 example_ring
      = (Inr [''node-1'', ''node-2''], example_ring)"
    by (simp add: example_ring_value getN_def murmur_keys getN_loop.simps eval_defs
        binarySearch_loop.simps)
  have z: "get_size example_ring = 2"
    by (simp add: example_ring_value get_size_def eval_defs)
  from getN_invariants [OF r v n c] gN
  have "get murmur3_32 ''user:123'' example_ring = (Inr (Some ''node-1''), example_ring)"
    by auto
  with r v n c gN z show ?thesis by simp
qed

text \<open>
  Claim C5 states that \<open>add\<close> followed by \<open>remove\<close> of the same identifier returns the ring
  to its state before the \<open>add\<close>, also when virtual nodes of different physical nodes
  collide. It fails on a collision: with one replica per node, \<open>node-12915\<close> and
  \<open>node-350751\<close> occupy the same position, so adding and removing the first on a ring that
  holds the second leaves the ring empty.
\<close>

theorem add_then_remove_collision_counterexample:
  "reachable murmur3_32 single_replica_ring \<and> valid_id ''node-12915''
   \<and> single_replica_ring =
       \<lparr>ring = [(0x6b8bdfa8, ''node-350751'')], sortedKeys = [0x6b8bdfa8], replicas = Num 1\<rparr>
   \<and> snd (remove murmur3_32 ''node-12915'' (snd (add murmur3_32 ''node-12915'' single_replica_ring)))
       = \<lparr>ring = [], sortedKeys = [], replicas = Num 1\<rparr>
   \<and> snd (remove murmur3_32 ''node-12915'' (snd (add murmur3_32 ''node-12915'' single_replica_ring)))
       \<noteq> single_replica_ring
   \<and> get_size single_replica_ring = 1
   \<and> get_size (snd (remove murmur3_32 ''node-12915''
        (snd (add murmur3_32 ''node-12915'' single_replica_ring)))) = 0"
proof -
  have v: "valid_id ''node-12915''" by (simp add: valid_id_def MAX_LENGTH_def)
  have a: "snd (add murmur3_32 ''node-12915'' single_replica_ring)
      = \<lparr>ring = [(0x6b8bdfa8, ''node-12915'')], sortedKeys = [0x6b8bdfa8], replicas = Num 1\<rparr>"
    by (simp add: single_replica_ring_value add_def eval_defs add_loop_positions positions_1
        murmur_collision Map_set_def)
  have r: "snd (remove murmur3_32 ''node-12915''
        \<lparr>ring = [(0x6b8bdfa8, ''node-12915'')], sortedKeys = [0x6b8bdfa8], replicas = Num 1\<rparr>)
      = \<lparr>ring = [], sortedKeys = [], replicas = Num 1\<rparr>"
    by (simp add: remove_def eval_defs remove_loop_positions positions_1
        murmur_collision Map_delete_def)
  have z1: "get_size single_replica_ring = 1"
    by (simp add: single_replica_ring_value get_size_def eval_defs)
  have z0: "get_size \<lparr>ring = [], sortedKeys = [], replicas = Num 1\<rparr> = 0"
    by (simp add: get_size_def eval_defs)
  show ?thesis
    unfolding a r using reachable_single_replica_ring v z1 z0
    by (simp add: single_replica_ring_value)
qed

text \<open>
  Claim C5, amended. For every reachable ring state and every valid identifier none of
  whose virtual-node positions is occupied in the ring before the \<open>add\<close>, performing \<open>add\<close>
  and then \<open>remove\<close> of the identifier returns the ring to its state before the \<open>add\<close>
  (size 0 if the ring was empty).
\<close>

theorem add_then_remove_restores:
  assumes "reachable h s" and "valid_id nodeId"
    and "set (positions h nodeId (replicas s)) \<inter> set (Map_keys (ring s)) = {}"
  shows "snd (remove h nodeId (snd (add h nodeId s))) = s
    \<and> (Map_size (ring s) = 0 \<longrightarrow> get_size (snd (remove h nodeId (snd (add h nodeId s)))) = 0)"
proof -
  have inv: "ring_inv s" using assms(1) by (rule reachable_inv)
  have v: "validateIdentifier nodeId ''Node identifier'' = Inr ()"
    using assms(2) by (simp add: validate_Inr)
  let ?ps = "positions h nodeId (replicas s)"
  have restored: "fold Map_delete ?ps (fold (\<lambda>p. Map_set p nodeId) ?ps (ring s)) = ring s"
    using assms(3) by (intro remove_after_add_ring) (simp add: Map_keys_def)
  have sk: "sort (Map_keys (ring s)) = sortedKeys s" using inv by (simp add: ring_inv_def)
  have eq: "snd (remove h nodeId (snd (add h nodeId s))) = s"
    using v by (simp add: add_def remove_def Let_def add_loop_positions remove_loop_positions
        restored sk)
  have "Map_size (ring s) = 0 \<longrightarrow> get_size s = 0"
    by (simp add: Map_size_def get_size_def Map_values_def new_Set_def)
  with eq show ?thesis by simp
qed

theorem add_then_remove_restores_witness:
  "reachable murmur3_32 example_ring \<and> valid_id ''node-3''
   \<and> set (positions murmur3_32 ''node-3'' (replicas example_ring))
        \<inter> set (Map_keys (ring example_ring)) = {}
   \<and> snd (remove murmur3_32 ''node-3'' (snd (add murmur3_32 ''node-3'' example_ring)))
        = example_ring"
proof -
  have r: "reachable murmur3_32 example_ring" by (rule reachable_example_ring)
  have v: "valid_id ''node-3''" by (simp add: valid_id_def MAX_LENGTH_def)
  have d: "set (positions murmur3_32 ''node-3'' (replicas example_ring))
        \<inter> set (Map_keys (ring example_ring)) = {}"
    by (simp add: example_ring_value positions_2 murmur_node_3 Map_keys_def)
  show ?thesis using add_then_remove_restores [OF r v d] r v d by simp
qed

text \<open>
  Claim C3 states that for every ring and every valid key a ring restored from the snapshot
  answers \<open>get\<close> as the original does, since the restore rebuilds the same position set
  from the node set and the replica count. It fails on a collision: with two replicas,
  \<open>node-12915\<close> and \<open>node-350751\<close> share the position of their first virtual node. Added
  in this order the second owns it, the snapshot lists the second before the first, and in
  the restored ring the first owns it; the key \<open>key:42\<close> resolves to that position.
\<close>

theorem snapshot_round_trip_collision_counterexample:
  "reachable murmur3_32 collided_ring \<and> valid_id ''key:42''
   \<and> toJSON collided_ring = \<lparr>json_nodes = [''node-350751'', ''node-12915''], json_replicas = Num 2\<rparr>
   \<and> fromJSON murmur3_32 (toJSON collided_ring) =
       Inr \<lparr>ring = [(0x6b8bdfa8, ''node-12915''), (0x94bd792f, ''node-350751''),
                   (0x688180a1, ''node-12915'')],
            sortedKeys = [0x688180a1, 0x6b8bdfa8, 0x94bd792f],
            replicas = Num 2\<rparr>
   \<and> fst (get murmur3_32 ''key:42'' collided_ring) = Inr (Some ''node-350751'')
   \<and> fst (get murmur3_32 ''key:42''
         \<lparr>ring = [(0x6b8bdfa8, ''node-12915''), (0x94bd792f, ''node-350751''),
                  (0x688180a1, ''node-12915'')],
           sortedKeys = [0x688180a1, 0x6b8bdfa8, 0x94bd792f],
           replicas = Num 2\<rparr>) = Inr (Some ''node-12915'')"
proof -
  have v: "valid_id ''key:42''" by (simp add: valid_id_def MAX_LENGTH_def)
  have j: "toJSON collided_ring
      = \<lparr>json_nodes = [''node-350751'', ''node-12915''], json_replicas = Num 2\<rparr>"
    by (simp add: toJSON_def get_nodes_def collided_ring_value eval_defs)
  have f: "fromJSON murmur3_32
        \<lparr>json_nodes = [''node-350751'', ''node-12915''], json_replicas = Num 2\<rparr> =
       Inr \<lparr>ring = [(0x6b8bdfa8, ''node-12915''), (0x94bd792f, ''node-350751''),
                   (0x688180a1, ''node-12915'')],
            sortedKeys = [0x688180a1, 0x6b8bdfa8, 0x94bd792f],
            replicas = Num 2\<rparr>"
    by (simp add: fromJSON_def add_def constructor_def eval_defs
        add_loop_positions positions_2 murmur_collision Map_set_def)
  have g1: "fst (get murmur3_32 ''key:42'' collided_ring) = Inr (Some ''node-350751'')"
    by (simp add: collided_ring_value get_def murmur_key_42 eval_defs binarySearch_loop.simps)
  have g2: "fst (get murmur3_32 ''key:42''
         \<lparr>ring = [(0x6b8bdfa8, ''node-12915''), (0x94bd792f, ''node-350751''),
                  (0x688180a1, ''node-12915'')],
           sortedKeys = [0x688180a1, 0x6b8bdfa8, 0x94bd792f],
           replicas = Num 2\<rparr>) = Inr (Some ''node-12915'')"
    by (simp add: get_def murmur_key_42 eval_defs binarySearch_loop.simps)
  show ?thesis
    unfolding j f using reachable_collided_ring v g1 g2 by simp
qed

text \<open>
  Claim C3, amended. For every ring built by the constructor and by \<open>add\<close> and \<open>remove\<close>
  calls on identifiers of which no two distinct ones share a virtual-node position, and for
  every valid key, restoring the ring from its snapshot succeeds and yields the same
  lookup, \<open>fromJSON(toJSON(ring)).get(k) = ring.get(k)\<close>, the empty ring included: the
  restored ring has the same position set, the same Sorted Index and the same replica
  count.
\<close>

theorem snapshot_round_trip:
  assumes "reachable_within h ids s" and "collision_free h (replicas s) ids" and "valid_id k"
  shows "\<exists>s'. fromJSON h (toJSON s) = Inr s'
    \<and> fst (get h k s') = fst (get h k s)
    \<and> set (Map_keys (ring s')) = set (Map_keys (ring s))
    \<and> sortedKeys s' = sortedKeys s \<and> replicas s' = replicas s"
proof -
  have reach: "reachable h s" using assms(1) by (rule within_reachable)
  then have inv: "ring_inv s" by (rule reachable_inv)
  note K = within_owners_complete [OF assms(1,2)]
  let ?ns = "get_nodes s"
  let ?s1 = "constructor \<lparr>opt_replicas = Some (replicas s)\<rparr>"
  let ?s' = "fold (\<lambda>n s. snd (add h n s)) ?ns ?s1"
  have r1: "replicas ?s1 = replicas s" by (simp add: constructor_def)
  have owners: "set ?ns = {n. \<exists>p. map_of (ring s) p = Some n}"
    using size_and_nodes_owner_set [OF inv] by (simp add: Map_get_def)
  have valid: "\<forall>n \<in> set ?ns. valid_id n" and sub: "set ?ns \<subseteq> ids"
    using K unfolding owners by blast+
  have cf: "collision_free h (replicas ?s1) (set ?ns)"
    unfolding r1 using assms(2) sub by (rule collision_free_subset)
  have restore: "fromJSON h (toJSON s) = Inr ?s'"
    using fromJSON_loop_adds [OF valid] by (simp add: fromJSON_def toJSON_def)
  have maps: "map_of (ring ?s') = map_of (ring s)"
  proof
    fix p
    show "map_of (ring ?s') p = map_of (ring s) p"
    proof (cases "\<exists>n \<in> set ?ns. p \<in> set (positions h n (replicas s))")
      case True
      then obtain n where n: "n \<in> set ?ns" "p \<in> set (positions h n (replicas s))" by blast
      have "map_of (ring ?s') p = Some n"
        using n by (intro map_of_adds_owner [OF valid cf]) (simp_all add: r1)
      moreover from n(1) obtain p0 where "map_of (ring s) p0 = Some n"
        unfolding owners by blast
      from K [OF this] n(2) have "map_of (ring s) p = Some n" by blast
      ultimately show ?thesis by simp
    next
      case False
      then have "map_of (ring ?s') p = map_of (ring ?s1) p"
        by (intro map_of_adds_other [OF valid]) (simp add: r1)
      then have none: "map_of (ring ?s') p = None" by (simp add: constructor_def)
      have "map_of (ring s) p = None"
      proof (rule ccontr)
        assume "map_of (ring s) p \<noteq> None"
        then obtain n where n: "map_of (ring s) p = Some n" by blast
        then have "n \<in> set ?ns" unfolding owners by blast
        with K [OF n] False show False by blast
      qed
      with none show ?thesis by simp
    qed
  qed
  have inv': "ring_inv ?s'"
    by (intro reachable_inv [of h] reachable_adds reach_new)
  note same = same_map_same_index [OF inv' inv maps]
  have "fst (get h k ?s') = fst (get h k s)"
    using maps same(2,3) by (rule get_depends_on)
  with restore same(1,2) show ?thesis by (simp add: replicas_adds r1)
qed

theorem snapshot_round_trip_witness:
  "reachable_within murmur3_32 {''node-1'', ''node-2''} example_ring
   \<and> collision_free murmur3_32 (replicas example_ring) {''node-1'', ''node-2''}
   \<and> valid_id ''user:123''
   \<and> (\<exists>s'. fromJSON murmur3_32 (toJSON example_ring) = Inr s'
        \<and> fst (get murmur3_32 ''user:123'' s') = Inr (Some ''node-1''))"
proof -
  have r: "reachable_within murmur3_32 {''node-1'', ''node-2''} example_ring"
    unfolding example_ring_def by (intro within_add within_new) simp_all
  have c: "collision_free murmur3_32 (replicas example_ring) {''node-1'', ''node-2''}"
    by (simp add: collision_free_def example_ring_value positions_2 murmur_node_1 murmur_node_2)
  have v: "valid_id ''user:123''" by (simp add: valid_id_def MAX_LENGTH_def)
  have g: "fst (get murmur3_32 ''user:123'' example_ring) = Inr (Some ''node-1'')"
    by (simp add: example_ring_value get_def murmur_keys eval_defs binarySearch_loop.simps)
  from snapshot_round_trip [OF r c v] g
  have "\<exists>s'. fromJSON murmur3_32 (toJSON example_ring) = Inr s'
        \<and> fst (get murmur3_32 ''user:123'' s') = Inr (Some ''node-1'')"
    by auto
  with r c v show ?thesis by simp
qed


end
